theory Spec2Isabelle
  imports Main
begin

section \<open>The Orchflow client of \<open>examples/ai-integration.py\<close>\<close>

text \<open>
  The class \<open>OrchflowClient\<close> multiplexes calls and pushed events over one websocket.
  It runs on asyncio: one thread, and a coroutine gives up control only at an
  \<open>await\<close>. The model therefore has one atomic step for each stretch of code between
  two suspension points, and a run is any interleaving of such steps. Every call of
  \<open>connect\<close> opens a connection and starts a listener of its own on it, so the model
  numbers the connections and keeps one listener for each.
\<close>

subsection \<open>Values\<close>

text \<open>
  What \<open>json.loads\<close> returns. Objects are association lists read with \<open>map_of\<close>;
  a decoded object has each key once. Numbers with a fraction or an exponent (Python
  floats) are not part of the model.
\<close>

datatype json =
    JNull
  | JBool bool
  | JInt int
  | JStr string
  | JArr "json list"
  | JObj "(string \<times> json) list"

text \<open>The exceptions that the client's code can raise or let through.\<close>

datatype error =
    JSONDecodeError
  | TypeError
  | KeyError
  | AttributeError
  | InvalidStateError
  | ConnectionClosed
  | OSError
  | Exception json

text \<open>An \<open>asyncio.Future\<close>: pending, or done with the value given to \<open>set_result\<close>.\<close>

datatype future = Pending | Done json

text \<open>The state of a task that \<open>connect\<close> creates for \<open>_listen\<close>.\<close>

datatype task_state = NotStarted | Running | Finished | Failed error

text \<open>
  A received websocket message, written as what \<open>json.loads\<close> makes of it: a value,
  or text that is not JSON.
\<close>

datatype message = Text json | Malformed

text \<open>
  What the iteration \<open>async for message in self.ws\<close> yields next: a message, the
  end of the iteration after a clean close, or the exception of an abnormal close.
\<close>

datatype wire = Recv message | CloseOK | CloseError

text \<open>
  What \<open>on_event\<close> is given: a function, which the decorator stores unchecked. It is
  a coroutine function (\<open>async def\<close>), whose call makes a coroutine object and runs
  nothing, or a plain function (\<open>def\<close>), whose call runs its body. Each comes with its
  name and with the exception, if any, that its body raises on an event. A plain
  function is taken to return a value that is not a coroutine. What a body does to the
  client through \<open>execute\<close> is a step of the run like any other call.
\<close>

datatype handler =
    AsyncDef string "json \<Rightarrow> error option"
  | Def string "json \<Rightarrow> error option"

fun body_of :: "handler \<Rightarrow> json \<Rightarrow> error option" where
  "body_of (AsyncDef name body) = body"
| "body_of (Def name body) = body"


record websocket =
  is_open :: bool
  sent :: "json list"

text \<open>
  The five attributes set by \<open>__init__\<close>, and the tasks of the asyncio loop that the
  client's code creates: the listeners, one for each connection made (connection \<open>k\<close>
  is the one that the \<open>k\<close>-th successful \<open>connect\<close> opened, counted from 0, and
  \<open>ws\<close> is the socket of the last), the tasks created for handlers and not yet run,
  in creation order (the loop runs them in that order), and the tasks that have run,
  each with the exception that ended it, if any.
\<close>

record client =
  url :: string
  ws :: "websocket option"
  request_id :: int
  pending_requests :: "int \<rightharpoonup> future"
  event_handlers :: "string \<rightharpoonup> handler list"
  connections :: nat
  listeners :: "nat \<Rightarrow> task_state"
  spawned :: "(handler \<times> json) list"
  finished :: "(handler \<times> json \<times> error option) list"

subsection \<open>Python's operators on decoded values\<close>

fun starts_with :: "string \<Rightarrow> string \<Rightarrow> bool" where
  "starts_with [] ys = True"
| "starts_with (x # xs) [] = False"
| "starts_with (x # xs) (y # ys) = (x = y \<and> starts_with xs ys)"

fun is_substring :: "string \<Rightarrow> string \<Rightarrow> bool" where
  "is_substring xs [] = (xs = [])"
| "is_substring xs (y # ys) = (starts_with xs (y # ys) \<or> is_substring xs ys)"

text \<open>
  \<open>k in data\<close> for a string \<open>k\<close>: key membership on a dict, element membership on
  a list, substring on a string, and a TypeError on a number, a boolean or None.
\<close>

fun py_contains :: "string \<Rightarrow> json \<Rightarrow> error + bool" where
  "py_contains k (JObj kvs) = Inr (map_of kvs k \<noteq> None)"
| "py_contains k (JArr xs) = Inr (List.member xs (JStr k))"
| "py_contains k (JStr s) = Inr (is_substring k s)"
| "py_contains k JNull = Inl TypeError"
| "py_contains k (JBool b) = Inl TypeError"
| "py_contains k (JInt n) = Inl TypeError"

text \<open>
  \<open>data[k]\<close> for a string \<open>k\<close>: a KeyError on a dict without the key, a TypeError
  on everything that is not a dict.
\<close>

fun py_getitem :: "json \<Rightarrow> string \<Rightarrow> error + json" where
  "py_getitem (JObj kvs) k = (case map_of kvs k of None \<Rightarrow> Inl KeyError | Some v \<Rightarrow> Inr v)"
| "py_getitem (JArr xs) k = Inl TypeError"
| "py_getitem (JStr s) k = Inl TypeError"
| "py_getitem JNull k = Inl TypeError"
| "py_getitem (JBool b) k = Inl TypeError"
| "py_getitem (JInt n) k = Inl TypeError"

text \<open>\<open>response.get(k)\<close> on a dict: None where the key is missing.\<close>

definition py_get :: "(string \<times> json) list \<Rightarrow> string \<Rightarrow> json" where
  "py_get kvs k = (case map_of kvs k of None \<Rightarrow> JNull | Some v \<Rightarrow> v)"

text \<open>
  The key of \<open>pending_requests\<close> (integers) that a decoded value is equal to:
  \<open>True == 1\<close> and \<open>False == 0\<close> in Python, a string or None equals no integer,
  and a list or a dict is unhashable, so that the lookup raises.
\<close>

fun int_key :: "json \<Rightarrow> error + int option" where
  "int_key (JInt n) = Inr (Some n)"
| "int_key (JBool b) = Inr (Some (if b then 1 else 0))"
| "int_key JNull = Inr None"
| "int_key (JStr s) = Inr None"
| "int_key (JArr xs) = Inl TypeError"
| "int_key (JObj kvs) = Inl TypeError"

text \<open>The same for \<open>event_handlers\<close>, whose keys are strings.\<close>

fun str_key :: "json \<Rightarrow> error + string option" where
  "str_key (JStr s) = Inr (Some s)"
| "str_key JNull = Inr None"
| "str_key (JBool b) = Inr None"
| "str_key (JInt n) = Inr None"
| "str_key (JArr xs) = Inl TypeError"
| "str_key (JObj kvs) = Inl TypeError"

text \<open>\<open>Future.set_result\<close>: raises on a future that is done already.\<close>

fun set_result :: "future \<Rightarrow> json \<Rightarrow> error + future" where
  "set_result Pending v = Inr (Done v)"
| "set_result (Done w) v = Inl InvalidStateError"

text \<open>\<open>json.loads\<close>.\<close>

fun loads :: "message \<Rightarrow> error + json" where
  "loads (Text data) = Inr data"
| "loads Malformed = Inl JSONDecodeError"

subsection \<open>The client\<close>

definition init_client :: "string \<Rightarrow> client" where
  "init_client u =
     \<lparr>url = u, ws = None, request_id = 0, pending_requests = Map.empty,
      event_handlers = Map.empty, connections = 0, listeners = (\<lambda>k. NotStarted),
      spawned = [], finished = []\<rparr>"

text \<open>
  \<open>connect\<close>; the flag says whether \<open>websockets.connect\<close> succeeds. On success the
  new socket replaces the one in \<open>self.ws\<close> and a listener task is created for it.
  A listener of an earlier connection is not touched: it goes on reading its own
  socket.
\<close>

definition connect :: "bool \<Rightarrow> client \<Rightarrow> (error + unit) \<times> client" where
  "connect ok c =
     (if ok
      then (Inr (), c\<lparr>ws := Some \<lparr>is_open = True, sent = []\<rparr>,
                       listeners := (listeners c)(connections c := Running),
                       connections := Suc (connections c)\<rparr>)
      else (Inl OSError, c))"

text \<open>
  \<open>await self.ws.send(json.dumps(request))\<close>: an AttributeError while \<open>self.ws\<close> is
  None, \<open>ConnectionClosed\<close> on a closed socket; otherwise the frame goes out.
\<close>

definition ws_send :: "client \<Rightarrow> json \<Rightarrow> (error + unit) \<times> client" where
  "ws_send c frame =
     (case ws c of
        None \<Rightarrow> (Inl AttributeError, c)
      | Some w \<Rightarrow>
          if is_open w then (Inr (), c\<lparr>ws := Some (w\<lparr>sent := sent w @ [frame]\<rparr>)\<rparr>)
          else (Inl ConnectionClosed, c))"

text \<open>
  The branch \<open>if "id" in data\<close> of \<open>_listen\<close>: the frame is given to the future
  stored under its id, if there is one. The entry stays in the table.
\<close>

definition handle_response :: "client \<Rightarrow> json \<Rightarrow> error + client" where
  "handle_response c data =
     (case py_getitem data ''id'' of
        Inl e \<Rightarrow> Inl e
      | Inr rid \<Rightarrow>
         (case int_key rid of
            Inl e \<Rightarrow> Inl e
          | Inr None \<Rightarrow> Inr c
          | Inr (Some n) \<Rightarrow>
             (case pending_requests c n of
                None \<Rightarrow> Inr c
              | Some fut \<Rightarrow>
                 (case set_result fut data of
                    Inl e \<Rightarrow> Inl e
                  | Inr fut' \<Rightarrow>
                      Inr (c\<lparr>pending_requests := (pending_requests c)(n \<mapsto> fut')\<rparr>)))))"

text \<open>
  \<open>asyncio.create_task(handler(data["event"]))\<close>. The call of a coroutine function
  makes a coroutine object without running the body, and \<open>create_task\<close> makes a task
  of it. The call of a plain function runs the body there and then: its exception
  leaves the call, and its value, which is no coroutine, makes \<open>create_task\<close> raise
  TypeError.
\<close>

fun create_task :: "handler \<Rightarrow> json \<Rightarrow> error + handler \<times> json" where
  "create_task (AsyncDef name body) ev = Inr (AsyncDef name body, ev)"
| "create_task (Def name body) ev =
     (case body ev of Some e \<Rightarrow> Inl e | None \<Rightarrow> Inl TypeError)"

text \<open>
  The loop \<open>for handler in self.event_handlers[event_type]\<close>. An exception ends it
  and leaves the loop with the tasks created so far.
\<close>

fun create_tasks :: "handler list \<Rightarrow> json \<Rightarrow> client \<Rightarrow> error \<times> client + client" where
  "create_tasks [] ev c = Inr c"
| "create_tasks (h # hs) ev c =
     (case create_task h ev of
        Inl e \<Rightarrow> Inl (e, c)
      | Inr t \<Rightarrow> create_tasks hs ev (c\<lparr>spawned := spawned c @ [t]\<rparr>))"

text \<open>
  The branch \<open>elif "event" in data\<close>. With an exception comes the client as the
  branch leaves it.
\<close>

definition handle_event :: "client \<Rightarrow> json \<Rightarrow> error \<times> client + client" where
  "handle_event c data =
     (case py_getitem data ''event'' of
        Inl e \<Rightarrow> Inl (e, c)
      | Inr ev \<Rightarrow>
         (case py_getitem ev ''type'' of
            Inl e \<Rightarrow> Inl (e, c)
          | Inr ty \<Rightarrow>
             (case str_key ty of
                Inl e \<Rightarrow> Inl (e, c)
              | Inr None \<Rightarrow> Inr c
              | Inr (Some event_type) \<Rightarrow>
                 (case event_handlers c event_type of
                    None \<Rightarrow> Inr c
                  | Some hs \<Rightarrow> create_tasks hs ev c))))"

text \<open>The client that a branch leaves behind, with or without an exception.\<close>

definition left_by :: "error \<times> client + client \<Rightarrow> client" where
  "left_by r = (case r of Inl (e, c) \<Rightarrow> c | Inr c \<Rightarrow> c)"

text \<open>The body of one iteration of the loop of \<open>_listen\<close>.\<close>

definition handle_message :: "client \<Rightarrow> message \<Rightarrow> error \<times> client + client" where
  "handle_message c m =
     (case loads m of
        Inl e \<Rightarrow> Inl (e, c)
      | Inr data \<Rightarrow>
         (case py_contains ''id'' data of
            Inl e \<Rightarrow> Inl (e, c)
          | Inr has_id \<Rightarrow>
             if has_id
             then (case handle_response c data of Inl e \<Rightarrow> Inl (e, c) | Inr c' \<Rightarrow> Inr c')
             else (case py_contains ''event'' data of
                     Inl e \<Rightarrow> Inl (e, c)
                   | Inr has_event \<Rightarrow> if has_event then handle_event c data else Inr c)))"

text \<open>
  One turn of the listener of connection \<open>k\<close>: it takes the next item from its
  socket. An exception of the body leaves the coroutine, which ends the task; so does
  the end of the iteration. A task that has ended takes nothing more. \<open>_listen\<close> has
  no \<open>try\<close>, and nothing else reads the socket. The close of the last connection is
  the close of the socket in \<open>self.ws\<close>.
\<close>

definition close_ws :: "nat \<Rightarrow> client \<Rightarrow> client" where
  "close_ws k c =
     (if Suc k = connections c
      then c\<lparr>ws := map_option (\<lambda>w. w\<lparr>is_open := False\<rparr>) (ws c)\<rparr>
      else c)"

definition listen_step :: "client \<Rightarrow> nat \<Rightarrow> wire \<Rightarrow> client" where
  "listen_step c k w =
     (if listeners c k \<noteq> Running then c
      else case w of
        CloseOK \<Rightarrow> (close_ws k c)\<lparr>listeners := (listeners c)(k := Finished)\<rparr>
      | CloseError \<Rightarrow> (close_ws k c)\<lparr>listeners := (listeners c)(k := Failed ConnectionClosed)\<rparr>
      | Recv m \<Rightarrow>
         (case handle_message c m of
            Inl (e, c') \<Rightarrow> c'\<lparr>listeners := (listeners c')(k := Failed e)\<rparr>
          | Inr c' \<Rightarrow> c'))"

text \<open>
  The asyncio loop runs the oldest task created for a handler: the body runs, and an
  exception that it raises is kept in the task. A task is run here in one step.
\<close>

definition run_task :: "client \<Rightarrow> client" where
  "run_task c =
     (case spawned c of
        [] \<Rightarrow> c
      | (h, ev) # rest \<Rightarrow>
          c\<lparr>spawned := rest, finished := finished c @ [(h, ev, body_of h ev)]\<rparr>)"

text \<open>The request that \<open>execute\<close> builds.\<close>

definition execute_request :: "int \<Rightarrow> json \<Rightarrow> json" where
  "execute_request n action =
     JObj [(''jsonrpc'', JStr ''2.0''), (''method'', JStr ''execute''),
           (''params'', JObj [(''action'', action)]), (''id'', JInt n)]"

text \<open>
  \<open>execute\<close> up to \<open>await future\<close>. The result is the exception of the send, or the
  id under which the future that the coroutine now waits for is stored.
\<close>

definition execute_send :: "client \<Rightarrow> json \<Rightarrow> (error + int) \<times> client" where
  "execute_send c action =
     (let c1 = c\<lparr>request_id := request_id c + 1\<rparr>;
          request = execute_request (request_id c1) action;
          c2 = c1\<lparr>pending_requests := (pending_requests c1)(request_id c1 \<mapsto> Pending)\<rparr>
      in case ws_send c2 request of
           (Inl e, c3) \<Rightarrow> (Inl e, c3)
         | (Inr u, c3) \<Rightarrow> (Inr (request_id c1), c3))"

text \<open>
  \<open>execute\<close> from \<open>await future\<close> on, for the call waiting on the future stored
  under \<open>n\<close>: None while the future is pending (the coroutine stays suspended),
  otherwise what the call raises or returns. \<open>_listen\<close> sets a future only to a frame
  that \<open>data["id"]\<close> accepted, which is a dict.
\<close>

definition execute_resume :: "client \<Rightarrow> int \<Rightarrow> (error + json) option" where
  "execute_resume c n =
     (case pending_requests c n of
        Some (Done response) \<Rightarrow>
          (case py_contains ''error'' response of
             Inl e \<Rightarrow> Some (Inl e)
           | Inr True \<Rightarrow>
              (case py_getitem response ''error'' of
                 Inl e \<Rightarrow> Some (Inl e)
               | Inr err \<Rightarrow> Some (Inl (Exception err)))
           | Inr False \<Rightarrow>
              (case response of
                 JObj kvs \<Rightarrow> Some (Inr (py_get kvs ''result''))
               | _ \<Rightarrow> Some (Inl AttributeError)))
      | _ \<Rightarrow> None)"

text \<open>\<open>on_event(event_type)(func)\<close>: the decorator applied to a handler.\<close>

definition on_event :: "client \<Rightarrow> string \<Rightarrow> handler \<Rightarrow> client" where
  "on_event c event_type func =
     (let hs = (case event_handlers c event_type of None \<Rightarrow> [] | Some l \<Rightarrow> l)
      in c\<lparr>event_handlers := (event_handlers c)(event_type \<mapsto> hs @ [func])\<rparr>)"

definition subscribe_request :: "string list \<Rightarrow> json" where
  "subscribe_request events =
     JObj [(''jsonrpc'', JStr ''2.0''), (''method'', JStr ''subscribe''),
           (''params'', JObj [(''events'', JArr (map JStr events))])]"

definition subscribe :: "client \<Rightarrow> string list \<Rightarrow> (error + unit) \<times> client" where
  "subscribe c events = ws_send c (subscribe_request events)"

subsection \<open>Runs\<close>

text \<open>
  The steps that a client takes, in any order: a call of \<open>connect\<close>, a call of
  \<open>execute\<close> up to its suspension, a registration, a subscription, a turn of the
  listener of a connection, and the run of a handler's task. An exception of
  \<open>connect\<close>, \<open>execute\<close> or \<open>subscribe\<close> goes to the caller; the state they leave
  behind stays.
\<close>

datatype op =
    Connect bool
  | Execute json
  | OnEvent string handler
  | Subscribe "string list"
  | Wire nat wire
  | RunTask

fun step :: "client \<Rightarrow> op \<Rightarrow> client" where
  "step c (Connect ok) = snd (connect ok c)"
| "step c (Execute action) = snd (execute_send c action)"
| "step c (OnEvent t h) = on_event c t h"
| "step c (Subscribe events) = snd (subscribe c events)"
| "step c (Wire k w) = listen_step c k w"
| "step c RunTask = run_task c"

definition run :: "client \<Rightarrow> op list \<Rightarrow> client" where
  "run c ops = foldl step c ops"

text \<open>The ids that the calls of \<open>execute\<close> in a run allocate, in order.\<close>

fun allocated :: "client \<Rightarrow> op list \<Rightarrow> int list" where
  "allocated c [] = []"
| "allocated c (Execute action # ops) =
     request_id (step c (Execute action)) # allocated (step c (Execute action)) ops"
| "allocated c (x # ops) = allocated (step c x) ops"



text \<open>A client that has connected once.\<close>

definition connected :: client where
  "connected = snd (connect True (init_client ''ws://localhost:7777''))"

section \<open>Properties\<close>

subsection \<open>What each operation changes\<close>

lemma connect_keeps:
  "request_id (snd (connect ok c)) = request_id c"
  "pending_requests (snd (connect ok c)) = pending_requests c"
  "event_handlers (snd (connect ok c)) = event_handlers c"
  "spawned (snd (connect ok c)) = spawned c"
  "finished (snd (connect ok c)) = finished c"
  by (simp_all add: connect_def)

lemma ws_send_keeps:
  "request_id (snd (ws_send c f)) = request_id c"
  "pending_requests (snd (ws_send c f)) = pending_requests c"
  "event_handlers (snd (ws_send c f)) = event_handlers c"
  "connections (snd (ws_send c f)) = connections c"
  "listeners (snd (ws_send c f)) = listeners c"
  "spawned (snd (ws_send c f)) = spawned c"
  "finished (snd (ws_send c f)) = finished c"
  by (simp_all add: ws_send_def split: option.splits)

lemma ws_send_fails:
  "fst (ws_send c f) = Inl e \<Longrightarrow> snd (ws_send c f) = c"
  by (simp add: ws_send_def split: option.splits if_splits)

lemma execute_send_fields:
  "request_id (snd (execute_send c a)) = request_id c + 1"
  "pending_requests (snd (execute_send c a)) = (pending_requests c)(request_id c + 1 \<mapsto> Pending)"
  "event_handlers (snd (execute_send c a)) = event_handlers c"
  "connections (snd (execute_send c a)) = connections c"
  "listeners (snd (execute_send c a)) = listeners c"
  "spawned (snd (execute_send c a)) = spawned c"
  "finished (snd (execute_send c a)) = finished c"
  by (simp_all add: execute_send_def Let_def ws_send_def split: option.splits prod.splits sum.splits if_splits)

lemma execute_send_result:
  "fst (execute_send c a) = Inr n \<Longrightarrow> n = request_id c + 1"
  by (simp add: execute_send_def Let_def split: prod.splits sum.splits)

lemma execute_send_fails_ws:
  "fst (execute_send c a) = Inl e \<Longrightarrow> ws (snd (execute_send c a)) = ws c"
  by (auto simp add: execute_send_def Let_def ws_send_def split: option.splits prod.splits sum.splits if_splits)

lemma run_task_keeps:
  "request_id (run_task c) = request_id c"
  "pending_requests (run_task c) = pending_requests c"
  "event_handlers (run_task c) = event_handlers c"
  "connections (run_task c) = connections c"
  "listeners (run_task c) = listeners c"
  "ws (run_task c) = ws c"
  by (simp_all add: run_task_def split: list.splits)

lemma set_result_Inr: "set_result fut v = Inr fut' \<longleftrightarrow> fut = Pending \<and> fut' = Done v"
  by (cases fut) auto

lemma handle_response_cases:
  assumes "handle_response c data = Inr c'"
  shows "c' = c \<or> (\<exists>n. pending_requests c n = Some Pending \<and>
           c' = c\<lparr>pending_requests := (pending_requests c)(n \<mapsto> Done data)\<rparr>)"
  using assms
  by (auto simp add: handle_response_def set_result_Inr split: sum.splits option.splits)

lemma handle_response_keeps:
  assumes "handle_response c data = Inr c'"
  shows "request_id c' = request_id c" and "dom (pending_requests c') = dom (pending_requests c)"
    and "event_handlers c' = event_handlers c" and "listeners c' = listeners c"
    and "connections c' = connections c" and "ws c' = ws c"
    and "spawned c' = spawned c" and "finished c' = finished c"
  using handle_response_cases [OF assms] by (auto split: if_splits)

lemma create_tasks_keeps_all:
  "request_id (left_by (create_tasks hs ev c)) = request_id c \<and>
   pending_requests (left_by (create_tasks hs ev c)) = pending_requests c \<and>
   event_handlers (left_by (create_tasks hs ev c)) = event_handlers c \<and>
   listeners (left_by (create_tasks hs ev c)) = listeners c \<and>
   connections (left_by (create_tasks hs ev c)) = connections c \<and>
   ws (left_by (create_tasks hs ev c)) = ws c \<and>
   finished (left_by (create_tasks hs ev c)) = finished c"
proof (induction hs arbitrary: c)
  case Nil
  show ?case by (simp add: left_by_def)
next
  case (Cons h hs)
  show ?case
  proof (cases "create_task h ev")
    case (Inl e)
    then show ?thesis by (simp add: left_by_def)
  next
    case (Inr t)
    then have "create_tasks (h # hs) ev c = create_tasks hs ev (c\<lparr>spawned := spawned c @ [t]\<rparr>)"
      by simp
    with Cons.IH [of "c\<lparr>spawned := spawned c @ [t]\<rparr>"] show ?thesis
      by simp
  qed
qed

lemma handle_event_cases:
  "left_by (handle_event c data) = c \<or>
   (\<exists>hs ev. handle_event c data = create_tasks hs ev c)"
proof (cases "py_getitem data ''event''")
  case (Inl e)
  then show ?thesis by (simp add: handle_event_def left_by_def)
next
  case ev: (Inr ev)
  show ?thesis
  proof (cases "py_getitem ev ''type''")
    case (Inl e)
    with ev show ?thesis by (simp add: handle_event_def left_by_def)
  next
    case ty: (Inr ty)
    show ?thesis
    proof (cases "str_key ty")
      case (Inl e)
      with ev ty show ?thesis by (simp add: handle_event_def left_by_def)
    next
      case key: (Inr key)
      show ?thesis
      proof (cases key)
        case None
        with ev ty key show ?thesis by (simp add: handle_event_def left_by_def)
      next
        case (Some event_type)
        show ?thesis
        proof (cases "event_handlers c event_type")
          case None
          with ev ty key Some show ?thesis by (simp add: handle_event_def left_by_def)
        next
          case hs: (Some hs)
          with ev ty key Some have "handle_event c data = create_tasks hs ev c"
            by (simp add: handle_event_def)
          then show ?thesis by blast
        qed
      qed
    qed
  qed
qed

lemma handle_event_keeps_all:
  "request_id (left_by (handle_event c data)) = request_id c \<and>
   pending_requests (left_by (handle_event c data)) = pending_requests c \<and>
   event_handlers (left_by (handle_event c data)) = event_handlers c \<and>
   listeners (left_by (handle_event c data)) = listeners c \<and>
   connections (left_by (handle_event c data)) = connections c \<and>
   ws (left_by (handle_event c data)) = ws c \<and>
   finished (left_by (handle_event c data)) = finished c"
proof -
  consider (same) "left_by (handle_event c data) = c"
    | (tasks) hs ev where "handle_event c data = create_tasks hs ev c"
    using handle_event_cases [of c data] by blast
  then show ?thesis
  proof cases
    case same
    then show ?thesis by simp
  next
    case tasks
    then show ?thesis by (simp add: create_tasks_keeps_all)
  qed
qed

lemma handle_event_keeps:
  "request_id (left_by (handle_event c data)) = request_id c"
  "pending_requests (left_by (handle_event c data)) = pending_requests c"
  "event_handlers (left_by (handle_event c data)) = event_handlers c"
  "listeners (left_by (handle_event c data)) = listeners c"
  "connections (left_by (handle_event c data)) = connections c"
  "ws (left_by (handle_event c data)) = ws c"
  "finished (left_by (handle_event c data)) = finished c"
  using handle_event_keeps_all [of c data] by simp_all

lemma handle_message_cases:
  "left_by (handle_message c m) = c \<or>
   (\<exists>data. left_by (handle_message c m) = left_by (handle_event c data)) \<or>
   (\<exists>data. handle_response c data = Inr (left_by (handle_message c m)))"
proof (cases "loads m")
  case (Inl e)
  then show ?thesis by (simp add: handle_message_def left_by_def)
next
  case data: (Inr data)
  show ?thesis
  proof (cases "py_contains ''id'' data")
    case (Inl e)
    with data show ?thesis by (simp add: handle_message_def left_by_def)
  next
    case has_id: (Inr has_id)
    show ?thesis
    proof (cases has_id)
      case True
      show ?thesis
      proof (cases "handle_response c data")
        case (Inl e)
        with data has_id True show ?thesis by (simp add: handle_message_def left_by_def)
      next
        case (Inr c')
        with data has_id True have "left_by (handle_message c m) = c'"
          by (simp add: handle_message_def left_by_def)
        with Inr show ?thesis by auto
      qed
    next
      case False
      show ?thesis
      proof (cases "py_contains ''event'' data")
        case (Inl e)
        with data has_id False show ?thesis by (simp add: handle_message_def left_by_def)
      next
        case (Inr has_event)
        with data has_id False
        have "left_by (handle_message c m) = (if has_event then left_by (handle_event c data) else c)"
          by (simp add: handle_message_def left_by_def)
        then show ?thesis by (cases has_event) auto
      qed
    qed
  qed
qed

lemma handle_message_keeps_all:
  "request_id (left_by (handle_message c m)) = request_id c \<and>
   dom (pending_requests (left_by (handle_message c m))) = dom (pending_requests c) \<and>
   event_handlers (left_by (handle_message c m)) = event_handlers c \<and>
   listeners (left_by (handle_message c m)) = listeners c \<and>
   connections (left_by (handle_message c m)) = connections c \<and>
   ws (left_by (handle_message c m)) = ws c \<and>
   finished (left_by (handle_message c m)) = finished c"
proof -
  consider (same) "left_by (handle_message c m) = c"
    | (event) data where "left_by (handle_message c m) = left_by (handle_event c data)"
    | (response) data where "handle_response c data = Inr (left_by (handle_message c m))"
    using handle_message_cases [of c m] by blast
  then show ?thesis
  proof cases
    case same
    then show ?thesis by simp
  next
    case event
    then show ?thesis by (simp add: handle_event_keeps)
  next
    case response
    then show ?thesis by (simp add: handle_response_keeps)
  qed
qed

lemma handle_message_keeps:
  "request_id (left_by (handle_message c m)) = request_id c"
  "dom (pending_requests (left_by (handle_message c m))) = dom (pending_requests c)"
  "event_handlers (left_by (handle_message c m)) = event_handlers c"
  "listeners (left_by (handle_message c m)) = listeners c"
  "connections (left_by (handle_message c m)) = connections c"
  "ws (left_by (handle_message c m)) = ws c"
  "finished (left_by (handle_message c m)) = finished c"
  using handle_message_keeps_all [of c m] by simp_all

lemma handle_message_left:
  "handle_message c m = Inl (e, c') \<Longrightarrow> left_by (handle_message c m) = c'"
  "handle_message c m = Inr c' \<Longrightarrow> left_by (handle_message c m) = c'"
  by (simp_all add: left_by_def)

lemma listen_step_cases:
  "listen_step c k w = c \<or>
   (\<exists>s. listen_step c k w = (close_ws k c)\<lparr>listeners := (listeners c)(k := s)\<rparr>) \<or>
   (\<exists>m e. listen_step c k w = (left_by (handle_message c m))
              \<lparr>listeners := (listeners (left_by (handle_message c m)))(k := Failed e)\<rparr>) \<or>
   (\<exists>m. listen_step c k w = left_by (handle_message c m))"
proof (cases "listeners c k = Running")
  case False
  then show ?thesis by (simp add: listen_step_def)
next
  case True
  show ?thesis
  proof (cases w)
    case (Recv m)
    show ?thesis
    proof (cases "handle_message c m")
      case (Inl p)
      obtain e c' where p: "p = (e, c')"
        by (cases p)
      with Inl Recv True have "listen_step c k w = c'\<lparr>listeners := (listeners c')(k := Failed e)\<rparr>"
        by (simp add: listen_step_def)
      moreover from Inl p have "left_by (handle_message c m) = c'"
        by (simp add: left_by_def)
      ultimately have "listen_step c k w = (left_by (handle_message c m))
              \<lparr>listeners := (listeners (left_by (handle_message c m)))(k := Failed e)\<rparr>"
        by simp
      then show ?thesis
        by blast
    next
      case (Inr c')
      with Recv True have "listen_step c k w = c'"
        by (simp add: listen_step_def)
      moreover from Inr have "left_by (handle_message c m) = c'"
        by (simp add: left_by_def)
      ultimately have "listen_step c k w = left_by (handle_message c m)"
        by simp
      then show ?thesis
        by blast
    qed
  next
    case CloseOK
    with True have "listen_step c k w = (close_ws k c)\<lparr>listeners := (listeners c)(k := Finished)\<rparr>"
      by (simp add: listen_step_def)
    then show ?thesis
      by blast
  next
    case CloseError
    with True have "listen_step c k w
        = (close_ws k c)\<lparr>listeners := (listeners c)(k := Failed ConnectionClosed)\<rparr>"
      by (simp add: listen_step_def)
    then show ?thesis
      by blast
  qed
qed

lemma listen_step_keeps_all:
  "request_id (listen_step c k w) = request_id c \<and>
   dom (pending_requests (listen_step c k w)) = dom (pending_requests c) \<and>
   event_handlers (listen_step c k w) = event_handlers c \<and>
   connections (listen_step c k w) = connections c \<and>
   finished (listen_step c k w) = finished c"
proof -
  consider (idle) "listen_step c k w = c"
    | (closed) s where "listen_step c k w = (close_ws k c)\<lparr>listeners := (listeners c)(k := s)\<rparr>"
    | (failed) m e where "listen_step c k w = (left_by (handle_message c m))
              \<lparr>listeners := (listeners (left_by (handle_message c m)))(k := Failed e)\<rparr>"
    | (handled) m where "listen_step c k w = left_by (handle_message c m)"
    using listen_step_cases [of c k w] by blast
  then show ?thesis
  proof cases
    case idle
    then show ?thesis by simp
  next
    case closed
    then show ?thesis by (simp add: close_ws_def)
  next
    case failed
    then show ?thesis by (simp add: handle_message_keeps)
  next
    case handled
    then show ?thesis by (simp add: handle_message_keeps)
  qed
qed

lemma listen_step_keeps:
  "request_id (listen_step c k w) = request_id c"
  "dom (pending_requests (listen_step c k w)) = dom (pending_requests c)"
  "event_handlers (listen_step c k w) = event_handlers c"
  "connections (listen_step c k w) = connections c"
  "finished (listen_step c k w) = finished c"
  using listen_step_keeps_all [of c k w] by simp_all

lemma step_dom_mono: "dom (pending_requests c) \<subseteq> dom (pending_requests (step c x))"
  by (cases x)
    (auto simp add: connect_keeps execute_send_fields listen_step_keeps on_event_def Let_def
      subscribe_def ws_send_keeps run_task_keeps)

lemma step_request_id_mono: "request_id c \<le> request_id (step c x)"
  by (cases x)
    (auto simp add: connect_keeps execute_send_fields listen_step_keeps on_event_def Let_def
      subscribe_def ws_send_keeps run_task_keeps)

lemma run_dom_mono: "dom (pending_requests c) \<subseteq> dom (pending_requests (run c ops))"
  unfolding run_def
proof (induction ops arbitrary: c)
  case Nil
  show ?case by simp
next
  case (Cons x ops)
  have "dom (pending_requests c) \<subseteq> dom (pending_requests (step c x))"
    by (rule step_dom_mono)
  also have "\<dots> \<subseteq> dom (pending_requests (foldl step (step c x) ops))"
    by (rule Cons.IH)
  finally show ?case by simp
qed

lemma run_request_id_mono: "request_id c \<le> request_id (run c ops)"
  unfolding run_def
proof (induction ops arbitrary: c)
  case Nil
  show ?case by simp
next
  case (Cons x ops)
  have "request_id c \<le> request_id (step c x)"
    by (rule step_request_id_mono)
  also have "\<dots> \<le> request_id (foldl step (step c x) ops)"
    by (rule Cons.IH)
  finally show ?case by simp
qed


text \<open>The definitions that evaluate a concrete run.\<close>

lemmas eval_defs =
  run_def connected_def connect_def init_client_def execute_send_def ws_send_def Let_def
  listen_step_def handle_message_def handle_response_def handle_event_def close_ws_def
  on_event_def subscribe_def execute_request_def subscribe_request_def run_task_def

subsection \<open>A failed send\<close>

text \<open>
  Claim C10. \<open>execute\<close> increments \<open>request_id\<close> and stores a pending future under
  the new id before it writes to the connection. Where the send raises (before
  \<open>connect\<close> there is no socket, and the send raises AttributeError) nothing is sent
  and nothing is undone: the id is used up, the future is in the table, and the entry
  is still there after any further steps of the client.
\<close>

theorem execute_failed_send_keeps_mutations:
  "(ws c = None \<longrightarrow> fst (execute_send c a) = Inl AttributeError) \<and>
   (fst (execute_send c a) = Inl e \<longrightarrow>
      ws (snd (execute_send c a)) = ws c \<and>
      request_id (snd (execute_send c a)) = request_id c + 1 \<and>
      pending_requests (snd (execute_send c a)) (request_id c + 1) = Some Pending \<and>
      (\<forall>ops. request_id c + 1 \<in> dom (pending_requests (run (snd (execute_send c a)) ops)) \<and>
             request_id c < request_id (run (snd (execute_send c a)) ops)))"
proof -
  let ?c = "snd (execute_send c a)"
  have none: "ws c = None \<longrightarrow> fst (execute_send c a) = Inl AttributeError"
    by (simp add: execute_send_def Let_def ws_send_def)
  have stays: "request_id c + 1 \<in> dom (pending_requests (run ?c ops))" for ops
    using run_dom_mono [of ?c ops] by (auto simp add: execute_send_fields)
  have used: "request_id c < request_id (run ?c ops)" for ops
    using run_request_id_mono [of ?c ops] by (simp add: execute_send_fields)
  show ?thesis
    using none stays used by (simp add: execute_send_fields execute_send_fails_ws)
qed

theorem execute_failed_send_keeps_mutations_witness:
  "ws (init_client ''ws://localhost:7777'') = None \<and>
   fst (execute_send (init_client ''ws://localhost:7777'') JNull) = Inl AttributeError \<and>
   ws (snd (execute_send (init_client ''ws://localhost:7777'') JNull)) = None \<and>
   request_id (snd (execute_send (init_client ''ws://localhost:7777'') JNull)) = 1 \<and>
   pending_requests (snd (execute_send (init_client ''ws://localhost:7777'') JNull)) 1
     = Some Pending \<and>
   1 \<in> dom (pending_requests
     (run (snd (execute_send (init_client ''ws://localhost:7777'') JNull))
        [Wire 0 (Recv (Text (JObj [(''id'', JInt 7)]))), Execute JNull]))"
proof -
  let ?c = "init_client ''ws://localhost:7777''"
  note fact = execute_failed_send_keeps_mutations [of ?c JNull AttributeError]
  have w: "ws ?c = None" and r: "request_id ?c = 0"
    by (simp_all add: init_client_def)
  from fact w have f: "fst (execute_send ?c JNull) = Inl AttributeError"
    by blast
  from fact f have rest:
    "ws (snd (execute_send ?c JNull)) = ws ?c \<and>
     request_id (snd (execute_send ?c JNull)) = request_id ?c + 1 \<and>
     pending_requests (snd (execute_send ?c JNull)) (request_id ?c + 1) = Some Pending \<and>
     (\<forall>ops. request_id ?c + 1 \<in> dom (pending_requests (run (snd (execute_send ?c JNull)) ops)) \<and>
            request_id ?c < request_id (run (snd (execute_send ?c JNull)) ops))"
    by blast
  then have "request_id ?c + 1 \<in> dom (pending_requests (run (snd (execute_send ?c JNull))
        [Wire 0 (Recv (Text (JObj [(''id'', JInt 7)]))), Execute JNull]))"
    by blast
  with rest w f r show ?thesis
    by simp
qed

subsection \<open>Correlation ids\<close>

lemma step_keeps_bound:
  assumes "\<forall>n. pending_requests c n \<noteq> None \<longrightarrow> n \<le> request_id c"
  shows "\<forall>n. pending_requests (step c x) n \<noteq> None \<longrightarrow> n \<le> request_id (step c x)"
proof (cases x)
  case (Connect ok)
  with assms show ?thesis
    by (simp add: connect_keeps)
next
  case (Execute a)
  with assms show ?thesis
    by (auto simp add: execute_send_fields dest: spec)
next
  case (OnEvent t h)
  with assms show ?thesis
    by (simp add: on_event_def Let_def)
next
  case (Subscribe events)
  with assms show ?thesis
    by (simp add: subscribe_def ws_send_keeps)
next
  case (Wire k w)
  have "dom (pending_requests (listen_step c k w)) = dom (pending_requests c)"
    by (rule listen_step_keeps)
  then have "pending_requests (listen_step c k w) n \<noteq> None \<longleftrightarrow> pending_requests c n \<noteq> None" for n
    by (auto simp add: dom_def)
  with assms Wire show ?thesis
    by (simp add: listen_step_keeps)
next
  case RunTask
  with assms show ?thesis
    by (simp add: run_task_keeps)
qed

lemma run_keeps_bound:
  "\<forall>n. pending_requests c n \<noteq> None \<longrightarrow> n \<le> request_id c \<Longrightarrow>
   \<forall>n. pending_requests (run c ops) n \<noteq> None \<longrightarrow> n \<le> request_id (run c ops)"
  unfolding run_def
proof (induction ops arbitrary: c)
  case Nil
  then show ?case by simp
next
  case (Cons x ops)
  from Cons.prems have "\<forall>n. pending_requests (step c x) n \<noteq> None \<longrightarrow> n \<le> request_id (step c x)"
    by (rule step_keeps_bound)
  then show ?case
    using Cons.IH [of "step c x"] by simp
qed

lemma allocated_above: "i \<in> set (allocated c ops) \<Longrightarrow> request_id c < i"
proof (induction ops arbitrary: c)
  case Nil
  then show ?case by simp
next
  case (Cons x ops)
  have mono: "request_id c \<le> request_id (step c x)"
    by (rule step_request_id_mono)
  have rest: "request_id c < i" if "i \<in> set (allocated (step c x) ops)"
    using Cons.IH [OF that] mono by simp
  show ?case
  proof (cases x)
    case (Connect ok)
    with Cons.prems rest show ?thesis by simp
  next
    case (Execute a)
    with Cons.prems have "i = request_id (step c x) \<or> i \<in> set (allocated (step c x) ops)"
      by auto
    then show ?thesis
      using rest Execute by (auto simp add: execute_send_fields)
  next
    case RunTask
    with Cons.prems rest show ?thesis by simp
  next
    case (OnEvent t h)
    with Cons.prems rest show ?thesis by simp
  next
    case (Subscribe events)
    with Cons.prems rest show ?thesis by simp
  next
    case (Wire k w)
    with Cons.prems rest show ?thesis by simp
  qed
qed

lemma allocated_increasing: "sorted_wrt (<) (allocated c ops)"
proof (induction c ops rule: allocated.induct)
  case (2 c action ops)
  then show ?case
    using allocated_above [of _ "step c (Execute action)" ops] by auto
qed simp_all

text \<open>
  Claim C2. In a client whose table has no key above \<open>request_id\<close> (as after
  \<open>__init__\<close>), every run of the client's operations allocates ids that increase
  strictly, so that no id is allocated twice; each is above \<open>request_id\<close> at the start
  and was not in the table; every step keeps the table's keys at or below
  \<open>request_id\<close>, so that the id of the next call, \<open>request_id + 1\<close>, is above all
  keys and belongs to no call of the table, resolved or not.
\<close>

theorem correlation_ids_increase:
  assumes "\<forall>n. pending_requests c n \<noteq> None \<longrightarrow> n \<le> request_id c"
  shows "sorted_wrt (<) (allocated c ops) \<and> distinct (allocated c ops) \<and>
         (\<forall>i \<in> set (allocated c ops). request_id c < i \<and> pending_requests c i = None) \<and>
         (\<forall>n. pending_requests (run c ops) n \<noteq> None \<longrightarrow> n \<le> request_id (run c ops)) \<and>
         pending_requests (run c ops) (request_id (run c ops) + 1) = None \<and>
         (\<forall>a n. fst (execute_send (run c ops) a) = Inr n \<longrightarrow>
            n = request_id (run c ops) + 1 \<and> pending_requests (run c ops) n = None \<and>
            (\<forall>k. pending_requests (run c ops) k \<noteq> None \<longrightarrow> k < n))"
proof -
  have inc: "sorted_wrt (<) (allocated c ops)"
    by (rule allocated_increasing)
  then have dist: "distinct (allocated c ops)"
    by (simp add: strict_sorted_iff)
  have above: "\<forall>i \<in> set (allocated c ops). request_id c < i \<and> pending_requests c i = None"
    using assms allocated_above [of _ c ops] by fastforce
  have bound: "\<forall>n. pending_requests (run c ops) n \<noteq> None \<longrightarrow> n \<le> request_id (run c ops)"
    using assms by (rule run_keeps_bound)
  then have fresh: "pending_requests (run c ops) (request_id (run c ops) + 1) = None"
    by fastforce
  have nxt: "\<forall>a n. fst (execute_send (run c ops) a) = Inr n \<longrightarrow>
            n = request_id (run c ops) + 1 \<and> pending_requests (run c ops) n = None \<and>
            (\<forall>k. pending_requests (run c ops) k \<noteq> None \<longrightarrow> k < n)"
    using bound fresh by (fastforce dest: execute_send_result)
  from inc dist above bound fresh nxt show ?thesis
    by blast
qed


theorem correlation_ids_increase_witness:
  "allocated connected
     [Execute JNull, OnEvent ''pane_output'' (AsyncDef ''handle_pane_output'' (\<lambda>ev. None)), Execute JNull,
      Wire 0 (Recv (Text (JObj [(''id'', JInt 1)]))), Execute JNull] = [1, 2, 3] \<and>
   sorted_wrt (<) (allocated connected
     [Execute JNull, OnEvent ''pane_output'' (AsyncDef ''handle_pane_output'' (\<lambda>ev. None)), Execute JNull,
      Wire 0 (Recv (Text (JObj [(''id'', JInt 1)]))), Execute JNull]) \<and>
   distinct (allocated connected
     [Execute JNull, OnEvent ''pane_output'' (AsyncDef ''handle_pane_output'' (\<lambda>ev. None)), Execute JNull,
      Wire 0 (Recv (Text (JObj [(''id'', JInt 1)]))), Execute JNull]) \<and>
   request_id (run connected
     [Execute JNull, OnEvent ''pane_output'' (AsyncDef ''handle_pane_output'' (\<lambda>ev. None)), Execute JNull,
      Wire 0 (Recv (Text (JObj [(''id'', JInt 1)]))), Execute JNull]) = 3 \<and>
   pending_requests (run connected
     [Execute JNull, OnEvent ''pane_output'' (AsyncDef ''handle_pane_output'' (\<lambda>ev. None)), Execute JNull,
      Wire 0 (Recv (Text (JObj [(''id'', JInt 1)]))), Execute JNull]) 4 = None"
proof -
  let ?ops = "[Execute JNull, OnEvent ''pane_output'' (AsyncDef ''handle_pane_output'' (\<lambda>ev. None)), Execute JNull,
      Wire 0 (Recv (Text (JObj [(''id'', JInt 1)]))), Execute JNull]"
  have h: "\<forall>n. pending_requests connected n \<noteq> None \<longrightarrow> n \<le> request_id connected"
    by (simp add: connected_def connect_def init_client_def)
  note fact = correlation_ids_increase [OF h, of ?ops]
  have ids: "allocated connected ?ops = [1, 2, 3]"
    by (simp add: eval_defs)
  have rid: "request_id (run connected ?ops) = 3"
    by (simp add: eval_defs)
  from fact have "pending_requests (run connected ?ops) (request_id (run connected ?ops) + 1) = None"
    by blast
  with rid have free: "pending_requests (run connected ?ops) 4 = None"
    by simp
  from fact ids rid free show ?thesis
    by blast
qed

subsection \<open>Responses\<close>

lemma listen_step_response:
  assumes "listeners c k = Running" and "pending_requests c n = Some Pending"
    and "map_of kvs ''id'' = Some (JInt n)"
  shows "listen_step c k (Recv (Text (JObj kvs)))
           = c\<lparr>pending_requests := (pending_requests c)(n \<mapsto> Done (JObj kvs))\<rparr>"
  using assms by (simp add: listen_step_def handle_message_def handle_response_def)

lemma execute_resume_done:
  assumes "pending_requests c n = Some (Done (JObj kvs))"
  shows "execute_resume c n =
     Some (case map_of kvs ''error'' of None \<Rightarrow> Inr (py_get kvs ''result'')
           | Some err \<Rightarrow> Inl (Exception err))"
  using assms by (simp add: execute_resume_def split: option.splits)

lemma run_responses:
  assumes "listeners c k = Running" and "distinct ns"
    and "\<forall>n \<in> set ns. pending_requests c n = Some Pending"
    and "\<forall>n \<in> set ns. map_of (frame n) ''id'' = Some (JInt n)"
  shows "run c (map (\<lambda>n. Wire k (Recv (Text (JObj (frame n))))) ns)
           = c\<lparr>pending_requests :=
                 (\<lambda>m. if m \<in> set ns then Some (Done (JObj (frame m))) else pending_requests c m)\<rparr>"
  using assms
proof (induction ns arbitrary: c)
  case Nil
  then show ?case by (simp add: run_def)
next
  case (Cons n ns)
  let ?c1 = "c\<lparr>pending_requests := (pending_requests c)(n \<mapsto> Done (JObj (frame n)))\<rparr>"
  have first: "listen_step c k (Recv (Text (JObj (frame n)))) = ?c1"
    using Cons.prems by (simp add: listen_step_response)
  have "run ?c1 (map (\<lambda>n. Wire k (Recv (Text (JObj (frame n))))) ns)
          = ?c1\<lparr>pending_requests :=
                 (\<lambda>m. if m \<in> set ns then Some (Done (JObj (frame m))) else pending_requests ?c1 m)\<rparr>"
    using Cons.prems by (intro Cons.IH) auto
  moreover have "(\<lambda>m. if m \<in> set ns then Some (Done (JObj (frame m))) else pending_requests ?c1 m)
      = (\<lambda>m. if m \<in> set (n # ns) then Some (Done (JObj (frame m))) else pending_requests c m)"
    by (rule ext) simp
  ultimately show ?case
    using first by (simp add: run_def)
qed

text \<open>
  Claim C1. While the listener of a connection runs and the calls with the ids \<open>ns\<close>
  are outstanding (their futures pending), let one response frame for each of them
  arrive on that connection, in the order of the list \<open>ns\<close>, which is any order. Then the frame carrying id \<open>n\<close> is stored in
  the future of the call with id \<open>n\<close> and nowhere else: the client afterwards is the
  client before with exactly these futures done, each with its own frame, and each call
  resumes with what its own frame holds.
\<close>

theorem responses_reach_their_calls:
  assumes "listeners c k = Running" and "distinct ns"
    and "\<forall>n \<in> set ns. pending_requests c n = Some Pending"
    and "\<forall>n \<in> set ns. map_of (frame n) ''id'' = Some (JInt n)"
  shows "run c (map (\<lambda>n. Wire k (Recv (Text (JObj (frame n))))) ns)
           = c\<lparr>pending_requests :=
                 (\<lambda>m. if m \<in> set ns then Some (Done (JObj (frame m))) else pending_requests c m)\<rparr> \<and>
         (\<forall>n \<in> set ns. execute_resume c n = None \<and>
            execute_resume (run c (map (\<lambda>n. Wire k (Recv (Text (JObj (frame n))))) ns)) n
              = Some (case map_of (frame n) ''error'' of
                        None \<Rightarrow> Inr (py_get (frame n) ''result'')
                      | Some err \<Rightarrow> Inl (Exception err)))"
proof -
  let ?c' = "run c (map (\<lambda>n. Wire k (Recv (Text (JObj (frame n))))) ns)"
  have eq: "?c' = c\<lparr>pending_requests :=
                 (\<lambda>m. if m \<in> set ns then Some (Done (JObj (frame m))) else pending_requests c m)\<rparr>"
    using assms by (rule run_responses)
  have "execute_resume c n = None \<and>
        execute_resume ?c' n = Some (case map_of (frame n) ''error'' of
                        None \<Rightarrow> Inr (py_get (frame n) ''result'')
                      | Some err \<Rightarrow> Inl (Exception err))" if "n \<in> set ns" for n
  proof -
    from that assms(3) have "pending_requests c n = Some Pending"
      by blast
    then have before: "execute_resume c n = None"
      by (simp add: execute_resume_def)
    from that have "pending_requests ?c' n = Some (Done (JObj (frame n)))"
      by (simp add: eq)
    then show ?thesis
      using before by (simp add: execute_resume_done)
  qed
  with eq show ?thesis
    by blast
qed

theorem responses_reach_their_calls_witness:
  "execute_resume
     (run connected
        [Execute (JStr ''a''), Execute (JStr ''b''),
         Wire 0 (Recv (Text (JObj [(''id'', JInt 2), (''result'', JStr ''second'')]))),
         Wire 0 (Recv (Text (JObj [(''id'', JInt 1), (''result'', JStr ''first'')])))]) 1
     = Some (Inr (JStr ''first'')) \<and>
   execute_resume
     (run connected
        [Execute (JStr ''a''), Execute (JStr ''b''),
         Wire 0 (Recv (Text (JObj [(''id'', JInt 2), (''result'', JStr ''second'')]))),
         Wire 0 (Recv (Text (JObj [(''id'', JInt 1), (''result'', JStr ''first'')])))]) 2
     = Some (Inr (JStr ''second''))"
proof -
  let ?c = "run connected [Execute (JStr ''a''), Execute (JStr ''b'')]"
  let ?frame = "\<lambda>n::int. [(''id'', JInt n),
      (''result'', JStr (if n = 1 then ''first'' else ''second''))]"
  have l: "listeners ?c 0 = Running"
    by (simp add: eval_defs)
  have d: "distinct [2, 1 :: int]"
    by simp
  have p: "\<forall>n \<in> set [2, 1]. pending_requests ?c n = Some Pending"
    by (simp add: eval_defs)
  have f: "\<forall>n \<in> set [2, 1]. map_of (?frame n) ''id'' = Some (JInt n)"
    by simp
  note fact = responses_reach_their_calls [of ?c 0 "[2, 1]" ?frame, OF l d p f]
  have split: "run connected
        [Execute (JStr ''a''), Execute (JStr ''b''),
         Wire 0 (Recv (Text (JObj [(''id'', JInt 2), (''result'', JStr ''second'')]))),
         Wire 0 (Recv (Text (JObj [(''id'', JInt 1), (''result'', JStr ''first'')])))]
      = run ?c (map (\<lambda>n. Wire 0 (Recv (Text (JObj (?frame n))))) [2, 1])"
    by (simp add: run_def)
  have r1: "execute_resume (run ?c (map (\<lambda>n. Wire 0 (Recv (Text (JObj (?frame n))))) [2, 1])) 1
      = Some (Inr (JStr ''first''))"
    using fact [THEN conjunct2, THEN bspec, of 1] by (simp add: py_get_def)
  have r2: "execute_resume (run ?c (map (\<lambda>n. Wire 0 (Recv (Text (JObj (?frame n))))) [2, 1])) 2
      = Some (Inr (JStr ''second''))"
    using fact [THEN conjunct2, THEN bspec, of 2] by (simp add: py_get_def)
  from r1 r2 show ?thesis
    unfolding split by (rule conjI)
qed

text \<open>
  Claim C6. A call whose future is pending is suspended. When the frame
  \<open>{"id": n, "error": err}\<close> arrives for it, the call raises an exception that carries
  \<open>err\<close>, the object with the remote code and message, and returns no value. The code
  raises Python's \<open>Exception\<close>; it has no class of its own for this error.
\<close>

theorem error_response_raises:
  assumes "listeners c k = Running" and "pending_requests c n = Some Pending"
    and "map_of kvs ''id'' = Some (JInt n)" and "map_of kvs ''error'' = Some err"
  shows "execute_resume c n = None \<and>
         execute_resume (listen_step c k (Recv (Text (JObj kvs)))) n = Some (Inl (Exception err)) \<and>
         (\<forall>v. execute_resume (listen_step c k (Recv (Text (JObj kvs)))) n \<noteq> Some (Inr v))"
proof -
  have before: "execute_resume c n = None"
    using assms(2) by (simp add: execute_resume_def)
  have "pending_requests (listen_step c k (Recv (Text (JObj kvs)))) n = Some (Done (JObj kvs))"
    using assms by (simp add: listen_step_response)
  then have "execute_resume (listen_step c k (Recv (Text (JObj kvs)))) n = Some (Inl (Exception err))"
    using assms(4) by (simp add: execute_resume_done)
  with before show ?thesis
    by simp
qed

theorem error_response_raises_witness:
  "execute_resume
     (listen_step (snd (execute_send connected (JStr ''a''))) 0
        (Recv (Text (JObj [(''id'', JInt 1),
           (''error'', JObj [(''code'', JInt (-32601)), (''message'', JStr ''no such action'')])])))) 1
   = Some (Inl (Exception (JObj [(''code'', JInt (-32601)), (''message'', JStr ''no such action'')])))"
proof -
  let ?c = "snd (execute_send connected (JStr ''a''))"
  let ?err = "JObj [(''code'', JInt (-32601)), (''message'', JStr ''no such action'')]"
  have l: "listeners ?c 0 = Running" and p: "pending_requests ?c 1 = Some Pending"
    by (simp_all add: eval_defs)
  have i: "map_of [(''id'', JInt 1), (''error'', ?err)] ''id'' = Some (JInt 1)"
    and e: "map_of [(''id'', JInt 1), (''error'', ?err)] ''error'' = Some ?err"
    by simp_all
  from error_response_raises [OF l p i e] show ?thesis
    by blast
qed

subsection \<open>Events\<close>

text \<open>
  Claim C8. An event frame (no id, an \<open>event\<close> object with a string \<open>type\<close>) whose type
  has no handler, or an empty list of handlers, changes nothing: no task is created for
  a handler, and the turn of the listener ends without an exception.
\<close>

theorem unhandled_event_is_noop:
  assumes "map_of kvs ''id'' = None" and "map_of kvs ''event'' = Some (JObj ev)"
    and "map_of ev ''type'' = Some (JStr t)"
    and "event_handlers c t = None \<or> event_handlers c t = Some []"
  shows "handle_message c (Text (JObj kvs)) = Inr c \<and>
         listen_step c k (Recv (Text (JObj kvs))) = c"
proof -
  have "handle_event c (JObj kvs) = Inr c"
    using assms by (auto simp add: handle_event_def)
  then have "handle_message c (Text (JObj kvs)) = Inr c"
    using assms(1,2) by (simp add: handle_message_def)
  then show ?thesis
    by (simp add: listen_step_def)
qed

theorem unhandled_event_is_noop_witness:
  "listen_step (on_event connected ''pane_output'' (AsyncDef ''handle_pane_output'' (\<lambda>ev. None))) 0
     (Recv (Text (JObj [(''event'', JObj [(''type'', JStr ''file_saved''), (''path'', JStr ''a.js'')])])))
   = on_event connected ''pane_output'' (AsyncDef ''handle_pane_output'' (\<lambda>ev. None))"
proof -
  let ?c = "on_event connected ''pane_output'' (AsyncDef ''handle_pane_output'' (\<lambda>ev. None))"
  let ?ev = "[(''type'', JStr ''file_saved''), (''path'', JStr ''a.js'')]"
  have a: "map_of [(''event'', JObj ?ev)] ''id'' = None"
    and b: "map_of [(''event'', JObj ?ev)] ''event'' = Some (JObj ?ev)"
    and c: "map_of ?ev ''type'' = Some (JStr ''file_saved'')"
    by simp_all
  have d: "event_handlers ?c ''file_saved'' = None \<or> event_handlers ?c ''file_saved'' = Some []"
    by (simp add: eval_defs)
  from unhandled_event_is_noop [OF a b c d] show ?thesis
    by blast
qed

subsection \<open>Outgoing frames\<close>

text \<open>
  Claim C9. The frame that \<open>subscribe\<close> sends has no \<open>id\<close>; \<open>subscribe\<close> allocates
  no id and stores no future, and on an open socket it returns once the frame is sent.
  The frame that \<open>execute\<close> sends has the method \<open>"execute"\<close>, an object as
  \<open>params\<close> and the integer id of the call, under which its future is stored.
\<close>

theorem subscribe_sends_no_id:
  "py_contains ''id'' (subscribe_request events) = Inr False \<and>
   request_id (snd (subscribe c events)) = request_id c \<and>
   pending_requests (snd (subscribe c events)) = pending_requests c \<and>
   (ws c = Some w \<and> is_open w \<longrightarrow>
      subscribe c events = (Inr (), c\<lparr>ws := Some (w\<lparr>sent := sent w @ [subscribe_request events]\<rparr>)\<rparr>)) \<and>
   py_getitem (execute_request n action) ''method'' = Inr (JStr ''execute'') \<and>
   py_getitem (execute_request n action) ''params'' = Inr (JObj [(''action'', action)]) \<and>
   py_getitem (execute_request n action) ''id'' = Inr (JInt n) \<and>
   (ws c = Some w \<and> is_open w \<longrightarrow>
      fst (execute_send c action) = Inr (request_id c + 1) \<and>
      ws (snd (execute_send c action))
        = Some (w\<lparr>sent := sent w @ [execute_request (request_id c + 1) action]\<rparr>) \<and>
      pending_requests (snd (execute_send c action)) (request_id c + 1) = Some Pending)"
proof -
  have no_id: "py_contains ''id'' (subscribe_request events) = Inr False"
    by (simp add: subscribe_request_def)
  have same: "request_id (snd (subscribe c events)) = request_id c"
    "pending_requests (snd (subscribe c events)) = pending_requests c"
    by (simp_all add: subscribe_def ws_send_keeps)
  have goes: "ws c = Some w \<and> is_open w \<longrightarrow>
      subscribe c events = (Inr (), c\<lparr>ws := Some (w\<lparr>sent := sent w @ [subscribe_request events]\<rparr>)\<rparr>)"
    by (simp add: subscribe_def ws_send_def)
  have fields: "py_getitem (execute_request n action) ''method'' = Inr (JStr ''execute'')"
    "py_getitem (execute_request n action) ''params'' = Inr (JObj [(''action'', action)])"
    "py_getitem (execute_request n action) ''id'' = Inr (JInt n)"
    by (simp_all add: execute_request_def)
  have call: "ws c = Some w \<and> is_open w \<longrightarrow>
      fst (execute_send c action) = Inr (request_id c + 1) \<and>
      ws (snd (execute_send c action))
        = Some (w\<lparr>sent := sent w @ [execute_request (request_id c + 1) action]\<rparr>) \<and>
      pending_requests (snd (execute_send c action)) (request_id c + 1) = Some Pending"
    by (simp add: execute_send_def Let_def ws_send_def)
  from no_id same goes fields call show ?thesis
    by blast
qed

theorem subscribe_sends_no_id_witness:
  "subscribe connected [''pane_output'']
     = (Inr (), connected\<lparr>ws := Some \<lparr>is_open = True,
          sent = [subscribe_request [''pane_output'']]\<rparr>\<rparr>) \<and>
   fst (execute_send connected JNull) = Inr 1 \<and>
   ws (snd (execute_send connected JNull))
     = Some \<lparr>is_open = True, sent = [execute_request 1 JNull]\<rparr>"
proof -
  have w: "ws connected = Some \<lparr>is_open = True, sent = []\<rparr> \<and> is_open \<lparr>is_open = True, sent = []\<rparr>"
    and r: "request_id connected = 0"
    by (simp_all add: connected_def connect_def init_client_def)
  from subscribe_sends_no_id [of "[''pane_output'']" connected "\<lparr>is_open = True, sent = []\<rparr>" 0 JNull] w r
  show ?thesis
    by simp
qed

subsection \<open>Dispatch to handlers\<close>











subsection \<open>The end of a listener\<close>

lemma run_Cons: "run c (x # ops) = run (step c x) ops"
  by (simp add: run_def)

lemma run_append: "run c (ops @ ops') = run (run c ops) ops'"
  by (simp add: run_def)

lemma listen_step_idle: "listeners c k \<noteq> Running \<Longrightarrow> listen_step c k w = c"
  by (simp add: listen_step_def)

lemma listen_step_other:
  assumes "j \<noteq> k \<or> listeners c k \<noteq> Running"
  shows "listeners (listen_step c j w) k = listeners c k"
proof (cases "j = k")
  case True
  with assms show ?thesis
    by (simp add: listen_step_idle)
next
  case False
  consider (idle) "listen_step c j w = c"
    | (closed) s where "listen_step c j w = (close_ws j c)\<lparr>listeners := (listeners c)(j := s)\<rparr>"
    | (failed) m e where "listen_step c j w = (left_by (handle_message c m))
              \<lparr>listeners := (listeners (left_by (handle_message c m)))(j := Failed e)\<rparr>"
    | (handled) m where "listen_step c j w = left_by (handle_message c m)"
    using listen_step_cases [of c j w] by blast
  then show ?thesis
  proof cases
    case idle
    then show ?thesis by simp
  next
    case closed
    with False show ?thesis by simp
  next
    case failed
    with False show ?thesis by (simp add: handle_message_keeps)
  next
    case handled
    then show ?thesis by (simp add: handle_message_keeps)
  qed
qed

lemma ended_step:
  assumes "k < connections c" and "listeners c k \<noteq> Running"
  shows "listeners (step c x) k = listeners c k \<and> k < connections (step c x)"
proof (cases x)
  case (Connect ok)
  with assms show ?thesis by (simp add: connect_def)
next
  case (Execute a)
  with assms show ?thesis by (simp add: execute_send_fields)
next
  case (OnEvent t h)
  with assms show ?thesis by (simp add: on_event_def Let_def)
next
  case (Subscribe events)
  with assms show ?thesis by (simp add: subscribe_def ws_send_keeps)
next
  case (Wire j w)
  with assms show ?thesis by (simp add: listen_step_other listen_step_keeps)
next
  case RunTask
  with assms show ?thesis by (simp add: run_task_keeps)
qed

lemma ended_run:
  assumes "k < connections c" and "listeners c k \<noteq> Running"
  shows "listeners (run c ops) k = listeners c k"
  using assms unfolding run_def
proof (induction ops arbitrary: c)
  case Nil
  show ?case by simp
next
  case (Cons x ops)
  from ended_step [OF Cons.prems, of x]
  have "listeners (step c x) k = listeners c k" and "k < connections (step c x)"
    by simp_all
  with Cons.IH [of "step c x"] Cons.prems(2) show ?case
    by simp
qed

lemma quiet_step:
  assumes "\<forall>j. listeners c j \<noteq> Running" and "x \<noteq> Connect True"
  shows "(\<forall>j. listeners (step c x) j \<noteq> Running) \<and>
         (pending_requests c n = Some Pending \<longrightarrow> pending_requests (step c x) n = Some Pending)"
proof (cases x)
  case (Connect ok)
  with assms show ?thesis by (simp add: connect_def)
next
  case (Execute a)
  with assms show ?thesis by (simp add: execute_send_fields)
next
  case (OnEvent t h)
  with assms show ?thesis by (simp add: on_event_def Let_def)
next
  case (Subscribe events)
  with assms show ?thesis by (simp add: subscribe_def ws_send_keeps)
next
  case (Wire j w)
  with assms show ?thesis by (simp add: listen_step_idle)
next
  case RunTask
  with assms show ?thesis by (simp add: run_task_keeps)
qed

lemma quiet_run:
  assumes "\<forall>j. listeners c j \<noteq> Running" and "Connect True \<notin> set ops"
    and "pending_requests c n = Some Pending"
  shows "pending_requests (run c ops) n = Some Pending"
  using assms unfolding run_def
proof (induction ops arbitrary: c)
  case Nil
  then show ?case by simp
next
  case (Cons x ops)
  from Cons.prems have "x \<noteq> Connect True"
    by auto
  from quiet_step [OF Cons.prems(1) this, of n] Cons.prems(3)
  have "\<forall>j. listeners (step c x) j \<noteq> Running" and "pending_requests (step c x) n = Some Pending"
    by simp_all
  with Cons.IH [of "step c x"] Cons.prems(2) show ?case
    by simp
qed

lemma close_step:
  assumes "listeners c k = Running"
  shows "listeners (listen_step c k CloseOK) = (listeners c)(k := Finished)"
    and "listeners (listen_step c k CloseError) = (listeners c)(k := Failed ConnectionClosed)"
    and "pending_requests (listen_step c k CloseOK) = pending_requests c"
    and "pending_requests (listen_step c k CloseError) = pending_requests c"
  using assms by (simp_all add: listen_step_def close_ws_def)

text \<open>
  Claim C3 says that a dropped connection resolves every outstanding call with a
  connection error. The client has no such sweep: \<open>_listen\<close> ends with the iteration
  and touches no future. With the calls 3, 4 and 5 outstanding when the connection
  drops, their futures stay pending and the three calls stay suspended.
\<close>

theorem connection_drop_counterexample:
  "listeners (run connected
      [Execute JNull, Execute JNull, Execute JNull, Execute JNull, Execute JNull,
       Wire 0 (Recv (Text (JObj [(''id'', JInt 1), (''result'', JNull)]))),
       Wire 0 (Recv (Text (JObj [(''id'', JInt 2), (''result'', JNull)]))),
       Wire 0 CloseError]) 0 = Failed ConnectionClosed \<and>
   map (pending_requests (run connected
      [Execute JNull, Execute JNull, Execute JNull, Execute JNull, Execute JNull,
       Wire 0 (Recv (Text (JObj [(''id'', JInt 1), (''result'', JNull)]))),
       Wire 0 (Recv (Text (JObj [(''id'', JInt 2), (''result'', JNull)]))),
       Wire 0 CloseError])) [3, 4, 5] = [Some Pending, Some Pending, Some Pending] \<and>
   map (execute_resume (run connected
      [Execute JNull, Execute JNull, Execute JNull, Execute JNull, Execute JNull,
       Wire 0 (Recv (Text (JObj [(''id'', JInt 1), (''result'', JNull)]))),
       Wire 0 (Recv (Text (JObj [(''id'', JInt 2), (''result'', JNull)]))),
       Wire 0 CloseError])) [3, 4, 5] = [None, None, None]"
  by (simp add: eval_defs execute_resume_def)

text \<open>
  Claim C3, as the code has it. When a connection that the client has made drops while
  its listener runs, that listener ends: normally after a clean close, with \<open>ConnectionClosed\<close> after an
  abnormal one. It resolves no call: the table is as it was. Whatever the client does
  afterwards, that listener stays ended and no frame of that connection is processed.
  Where no other connection has a running listener, every call that was outstanding
  stays suspended on its pending future for as long as the caller does not connect
  again. A new \<open>connect\<close> starts a listener on a new connection, and a response that
  arrives there for the id of such a call resolves it.
\<close>

theorem connection_drop_leaves_calls_pending:
  assumes "listeners c k = Running" and "k < connections c"
    and "w = CloseOK \<or> w = CloseError"
  shows "listeners (listen_step c k w) k
           = (if w = CloseOK then Finished else Failed ConnectionClosed) \<and>
         pending_requests (listen_step c k w) = pending_requests c \<and>
         (\<forall>ops. listeners (run (listen_step c k w) ops) k = listeners (listen_step c k w) k \<and>
            (\<forall>m. step (run (listen_step c k w) ops) (Wire k (Recv m))
                   = run (listen_step c k w) ops)) \<and>
         ((\<forall>j. j \<noteq> k \<longrightarrow> listeners c j \<noteq> Running) \<longrightarrow>
            (\<forall>ops n. Connect True \<notin> set ops \<and> pending_requests c n = Some Pending \<longrightarrow>
               pending_requests (run (listen_step c k w) ops) n = Some Pending \<and>
               execute_resume (run (listen_step c k w) ops) n = None)) \<and>
         (\<forall>n kvs. pending_requests c n = Some Pending \<and> map_of kvs ''id'' = Some (JInt n) \<longrightarrow>
            pending_requests (run (listen_step c k w)
                [Connect True, Wire (connections c) (Recv (Text (JObj kvs)))]) n
              = Some (Done (JObj kvs)))"
proof -
  let ?c = "listen_step c k w"
  have ended: "listeners ?c k = (if w = CloseOK then Finished else Failed ConnectionClosed)"
    using assms by (auto simp add: close_step)
  then have stopped: "listeners ?c k \<noteq> Running"
    by simp
  have table: "pending_requests ?c = pending_requests c"
    using assms by (auto simp add: close_step)
  have conns: "connections ?c = connections c"
    by (rule listen_step_keeps)
  with assms(2) have below: "k < connections ?c"
    by simp
  have later: "listeners (run ?c ops) k = listeners ?c k \<and>
      (\<forall>m. step (run ?c ops) (Wire k (Recv m)) = run ?c ops)" for ops
  proof -
    have "listeners (run ?c ops) k = listeners ?c k"
      using below stopped by (rule ended_run)
    with stopped show ?thesis
      by (simp add: listen_step_idle)
  qed
  have quiet: "pending_requests (run ?c ops) n = Some Pending \<and> execute_resume (run ?c ops) n = None"
    if others: "\<forall>j. j \<noteq> k \<longrightarrow> listeners c j \<noteq> Running"
      and that: "Connect True \<notin> set ops \<and> pending_requests c n = Some Pending" for ops n
  proof -
    have "listeners ?c j \<noteq> Running" for j
    proof (cases "j = k")
      case True
      with stopped show ?thesis by simp
    next
      case False
      with others have "listeners c j \<noteq> Running"
        by simp
      moreover have "listeners ?c j = listeners c j"
        using False by (simp add: listen_step_other)
      ultimately show ?thesis by simp
    qed
    then have "\<forall>j. listeners ?c j \<noteq> Running"
      by simp
    moreover from that table have "pending_requests ?c n = Some Pending"
      by simp
    ultimately have "pending_requests (run ?c ops) n = Some Pending"
      using that by (intro quiet_run) simp_all
    then show ?thesis
      by (simp add: execute_resume_def)
  qed
  have again: "pending_requests (run ?c [Connect True, Wire (connections c) (Recv (Text (JObj kvs)))]) n
      = Some (Done (JObj kvs))"
    if "pending_requests c n = Some Pending \<and> map_of kvs ''id'' = Some (JInt n)" for n kvs
  proof -
    let ?d = "snd (connect True ?c)"
    have "listeners ?d (connections c) = Running"
      by (simp add: connect_def conns)
    moreover from that table have "pending_requests ?d n = Some Pending"
      by (simp add: connect_keeps)
    ultimately have "listen_step ?d (connections c) (Recv (Text (JObj kvs)))
        = ?d\<lparr>pending_requests := (pending_requests ?d)(n \<mapsto> Done (JObj kvs))\<rparr>"
      using that by (intro listen_step_response) simp_all
    then show ?thesis
      by (simp add: run_def)
  qed
  from ended table later quiet again show ?thesis
    by blast
qed

theorem connection_drop_leaves_calls_pending_witness:
  "listeners (listen_step (run connected [Execute JNull, Execute JNull]) 0 CloseOK) 0 = Finished \<and>
   pending_requests (run (listen_step (run connected [Execute JNull, Execute JNull]) 0 CloseOK)
      [Wire 0 (Recv (Text (JObj [(''id'', JInt 2), (''result'', JNull)]))), Execute JNull,
       Connect False, RunTask]) 2
     = Some Pending \<and>
   execute_resume (run (listen_step (run connected [Execute JNull, Execute JNull]) 0 CloseOK)
      [Wire 0 (Recv (Text (JObj [(''id'', JInt 2), (''result'', JNull)]))), Execute JNull,
       Connect False, RunTask]) 2
     = None \<and>
   pending_requests (run (listen_step (run connected [Execute JNull, Execute JNull]) 0 CloseOK)
      [Connect True, Wire 1 (Recv (Text (JObj [(''id'', JInt 2), (''result'', JNull)])))]) 2
     = Some (Done (JObj [(''id'', JInt 2), (''result'', JNull)]))"
proof -
  let ?c = "run connected [Execute JNull, Execute JNull]"
  let ?ops = "[Wire 0 (Recv (Text (JObj [(''id'', JInt 2), (''result'', JNull)]))), Execute JNull,
       Connect False, RunTask]"
  have l: "listeners ?c 0 = Running" and n: "0 < connections ?c"
    and p: "pending_requests ?c 2 = Some Pending" and one: "connections ?c = 1"
    by (simp_all add: eval_defs)
  have others: "\<forall>j. j \<noteq> 0 \<longrightarrow> listeners ?c j \<noteq> Running"
    by (simp add: eval_defs)
  have w: "CloseOK = CloseOK \<or> CloseOK = CloseError"
    by simp
  have i: "map_of [(''id'', JInt 2), (''result'', JNull)] ''id'' = Some (JInt 2)"
    by simp
  have no: "Connect True \<notin> set ?ops"
    by simp
  note fact = connection_drop_leaves_calls_pending [OF l n w]
  from fact have a: "listeners (listen_step ?c 0 CloseOK) 0 = Finished"
    by simp
  from fact others have "\<forall>ops n. Connect True \<notin> set ops \<and> pending_requests ?c n = Some Pending \<longrightarrow>
               pending_requests (run (listen_step ?c 0 CloseOK) ops) n = Some Pending \<and>
               execute_resume (run (listen_step ?c 0 CloseOK) ops) n = None"
    by blast
  with no p have b: "pending_requests (run (listen_step ?c 0 CloseOK) ?ops) 2 = Some Pending \<and>
     execute_resume (run (listen_step ?c 0 CloseOK) ?ops) 2 = None"
    by blast
  from fact have "\<forall>n kvs. pending_requests ?c n = Some Pending \<and> map_of kvs ''id'' = Some (JInt n) \<longrightarrow>
            pending_requests (run (listen_step ?c 0 CloseOK)
                [Connect True, Wire (connections ?c) (Recv (Text (JObj kvs)))]) n
              = Some (Done (JObj kvs))"
    by blast
  with p i have "pending_requests (run (listen_step ?c 0 CloseOK)
      [Connect True, Wire (connections ?c) (Recv (Text (JObj [(''id'', JInt 2), (''result'', JNull)])))]) 2
     = Some (Done (JObj [(''id'', JInt 2), (''result'', JNull)]))"
    by blast
  then have c: "pending_requests (run (listen_step ?c 0 CloseOK)
      [Connect True, Wire 1 (Recv (Text (JObj [(''id'', JInt 2), (''result'', JNull)])))]) 2
     = Some (Done (JObj [(''id'', JInt 2), (''result'', JNull)]))"
    by (simp only: one)
  from a b c show ?thesis
    by blast
qed

subsection \<open>Frames that are not routed\<close>

lemma listen_step_dropped:
  assumes "map_of kvs ''id'' = None" and "map_of kvs ''event'' = None"
  shows "listen_step c k (Recv (Text (JObj kvs))) = c"
  using assms by (simp add: listen_step_def handle_message_def)

text \<open>
  Claim C5 says that a frame that fails to decode is logged and dropped and that the loop
  goes on. \<open>_listen\<close> calls \<open>json.loads\<close> outside any \<open>try\<close>: the exception ends
  the task. After one malformed frame the response to call 1 is not processed, and the
  call stays suspended.
\<close>

theorem malformed_frame_counterexample:
  "listeners (run connected
      [Execute JNull, Wire 0 (Recv Malformed),
       Wire 0 (Recv (Text (JObj [(''id'', JInt 1), (''result'', JNull)])))]) 0
     = Failed JSONDecodeError \<and>
   pending_requests (run connected
      [Execute JNull, Wire 0 (Recv Malformed),
       Wire 0 (Recv (Text (JObj [(''id'', JInt 1), (''result'', JNull)])))]) 1
     = Some Pending \<and>
   execute_resume (run connected
      [Execute JNull, Wire 0 (Recv Malformed),
       Wire 0 (Recv (Text (JObj [(''id'', JInt 1), (''result'', JNull)])))]) 1
     = None"
  by (simp add: eval_defs execute_resume_def)

text \<open>
  Claim C5, as the code has it. A frame that fails to decode, on a connection that the
  client has made and whose listener runs, ends that listener with
  \<open>JSONDecodeError\<close>. Whatever the client does afterwards, also after
  a new \<open>connect\<close>, which starts another listener on another connection, that
  listener stays ended and no later frame of that connection is processed. A decoded
  frame that is an object with neither \<open>id\<close> nor \<open>event\<close> is dropped: the client is
  unchanged (nothing is logged), and the frames that follow are processed as if it had
  not come.
\<close>

theorem malformed_frame_ends_listener:
  assumes "listeners c k = Running" and "k < connections c"
  shows "listen_step c k (Recv Malformed)
           = c\<lparr>listeners := (listeners c)(k := Failed JSONDecodeError)\<rparr> \<and>
         (\<forall>ops m. listeners (run (listen_step c k (Recv Malformed)) ops) k = Failed JSONDecodeError \<and>
            step (run (listen_step c k (Recv Malformed)) ops) (Wire k (Recv m))
              = run (listen_step c k (Recv Malformed)) ops) \<and>
         (\<forall>kvs ops. map_of kvs ''id'' = None \<and> map_of kvs ''event'' = None \<longrightarrow>
            listen_step c k (Recv (Text (JObj kvs))) = c \<and>
            run c (Wire k (Recv (Text (JObj kvs))) # ops) = run c ops)"
proof -
  let ?c = "listen_step c k (Recv Malformed)"
  have ended: "?c = c\<lparr>listeners := (listeners c)(k := Failed JSONDecodeError)\<rparr>"
    using assms by (simp add: listen_step_def handle_message_def)
  then have stopped: "listeners ?c k \<noteq> Running" and failed: "listeners ?c k = Failed JSONDecodeError"
    by simp_all
  from ended assms(2) have below: "k < connections ?c"
    by simp
  have later: "listeners (run ?c ops) k = Failed JSONDecodeError \<and>
      step (run ?c ops) (Wire k (Recv m)) = run ?c ops" for ops m
  proof -
    have "listeners (run ?c ops) k = listeners ?c k"
      using below stopped by (rule ended_run)
    with failed show ?thesis
      by (simp add: listen_step_idle)
  qed
  have dropped: "listen_step c k (Recv (Text (JObj kvs))) = c \<and>
      run c (Wire k (Recv (Text (JObj kvs))) # ops) = run c ops"
    if "map_of kvs ''id'' = None \<and> map_of kvs ''event'' = None" for kvs ops
    using that by (simp add: run_Cons listen_step_dropped)
  from ended later dropped show ?thesis
    by blast
qed

theorem malformed_frame_ends_listener_witness:
  "listeners (run (listen_step (run connected [Execute JNull]) 0 (Recv Malformed))
      [Connect True, Wire 0 (Recv (Text (JObj [(''id'', JInt 1), (''result'', JNull)])))]) 0
     = Failed JSONDecodeError \<and>
   step (run (listen_step (run connected [Execute JNull]) 0 (Recv Malformed)) [Connect True])
      (Wire 0 (Recv (Text (JObj [(''id'', JInt 1), (''result'', JNull)]))))
     = run (listen_step (run connected [Execute JNull]) 0 (Recv Malformed)) [Connect True] \<and>
   listen_step (run connected [Execute JNull]) 0 (Recv (Text (JObj [(''ping'', JInt 1)])))
     = run connected [Execute JNull] \<and>
   run (run connected [Execute JNull])
     [Wire 0 (Recv (Text (JObj [(''ping'', JInt 1)]))),
      Wire 0 (Recv (Text (JObj [(''id'', JInt 1), (''result'', JNull)])))]
     = run (run connected [Execute JNull])
         [Wire 0 (Recv (Text (JObj [(''id'', JInt 1), (''result'', JNull)])))]"
proof -
  let ?c = "run connected [Execute JNull]"
  let ?r = "Recv (Text (JObj [(''id'', JInt 1), (''result'', JNull)]))"
  have l: "listeners ?c 0 = Running" and n: "0 < connections ?c"
    by (simp_all add: eval_defs)
  note fact = malformed_frame_ends_listener [OF l n]
  have k: "map_of [(''ping'', JInt 1)] ''id'' = None \<and> map_of [(''ping'', JInt 1)] ''event'' = None"
    by simp
  from fact have later: "\<forall>ops m. listeners (run (listen_step ?c 0 (Recv Malformed)) ops) 0
        = Failed JSONDecodeError \<and>
      step (run (listen_step ?c 0 (Recv Malformed)) ops) (Wire 0 (Recv m))
        = run (listen_step ?c 0 (Recv Malformed)) ops"
    by blast
  then have a: "listeners (run (listen_step ?c 0 (Recv Malformed)) [Connect True, Wire 0 ?r]) 0
      = Failed JSONDecodeError"
    by blast
  from later have b: "step (run (listen_step ?c 0 (Recv Malformed)) [Connect True]) (Wire 0 ?r)
      = run (listen_step ?c 0 (Recv Malformed)) [Connect True]"
    by blast
  from fact have "\<forall>kvs ops. map_of kvs ''id'' = None \<and> map_of kvs ''event'' = None \<longrightarrow>
            listen_step ?c 0 (Recv (Text (JObj kvs))) = ?c \<and>
            run ?c (Wire 0 (Recv (Text (JObj kvs))) # ops) = run ?c ops"
    by blast
  with k have "listen_step ?c 0 (Recv (Text (JObj [(''ping'', JInt 1)]))) = ?c \<and>
      run ?c (Wire 0 (Recv (Text (JObj [(''ping'', JInt 1)]))) # [Wire 0 ?r]) = run ?c [Wire 0 ?r]"
    by blast
  with a b show ?thesis
    by blast
qed

subsection \<open>Responses without a pending call\<close>

lemma listen_step_keeps_done:
  assumes "pending_requests c n = Some (Done r)"
  shows "pending_requests (listen_step c k w) n = Some (Done r)"
proof -
  have resp: "pending_requests c'' n = Some (Done r)" if "handle_response c data = Inr c''" for data c''
    using handle_response_cases [OF that] assms by auto
  have msg: "pending_requests (left_by (handle_message c m)) n = Some (Done r)" for m
    using handle_message_cases [of c m] assms by (auto simp add: handle_event_keeps resp)
  consider (idle) "listen_step c k w = c"
    | (closed) s where "listen_step c k w = (close_ws k c)\<lparr>listeners := (listeners c)(k := s)\<rparr>"
    | (failed) m e where "listen_step c k w = (left_by (handle_message c m))
              \<lparr>listeners := (listeners (left_by (handle_message c m)))(k := Failed e)\<rparr>"
    | (handled) m where "listen_step c k w = left_by (handle_message c m)"
    using listen_step_cases [of c k w] by blast
  then show ?thesis
  proof cases
    case idle
    with assms show ?thesis by simp
  next
    case closed
    with assms show ?thesis by (simp add: close_ws_def)
  next
    case failed
    then show ?thesis by (simp add: msg)
  next
    case handled
    then show ?thesis by (simp add: msg)
  qed
qed

lemma step_keeps_done:
  assumes "\<forall>k. pending_requests c k \<noteq> None \<longrightarrow> k \<le> request_id c"
    and "pending_requests c n = Some (Done r)"
  shows "pending_requests (step c x) n = Some (Done r)"
proof (cases x)
  case (Connect ok)
  with assms(2) show ?thesis by (simp add: connect_keeps)
next
  case (Execute a)
  from assms have "n \<le> request_id c"
    by auto
  with assms(2) Execute show ?thesis
    by (simp add: execute_send_fields)
next
  case (OnEvent t h)
  with assms(2) show ?thesis by (simp add: on_event_def Let_def)
next
  case (Subscribe events)
  with assms(2) show ?thesis by (simp add: subscribe_def ws_send_keeps)
next
  case (Wire k w)
  with assms(2) show ?thesis by (simp add: listen_step_keeps_done)
next
  case RunTask
  with assms(2) show ?thesis by (simp add: run_task_keeps)
qed

lemma run_keeps_done:
  assumes "\<forall>k. pending_requests c k \<noteq> None \<longrightarrow> k \<le> request_id c"
    and "pending_requests c n = Some (Done r)"
  shows "pending_requests (run c ops) n = Some (Done r)"
  using assms unfolding run_def
proof (induction ops arbitrary: c)
  case Nil
  then show ?case by simp
next
  case (Cons x ops)
  have "\<forall>k. pending_requests (step c x) k \<noteq> None \<longrightarrow> k \<le> request_id (step c x)"
    using Cons.prems(1) by (rule step_keeps_bound)
  moreover have "pending_requests (step c x) n = Some (Done r)"
    using Cons.prems by (rule step_keeps_done)
  ultimately show ?case
    using Cons.IH [of "step c x"] by simp
qed

text \<open>
  Claim C4 says that a response whose call is resolved already is discarded and that the
  loop keeps running after it. \<open>_listen\<close> leaves the future of a resolved call in
  \<open>pending_requests\<close>, so a second response with the same id reaches
  \<open>set_result\<close> again, which raises \<open>InvalidStateError\<close> and ends the listener: the
  response to call 2 that follows is not processed.
\<close>

theorem duplicate_response_counterexample:
  "listeners (run connected
      [Execute JNull, Execute JNull,
       Wire 0 (Recv (Text (JObj [(''id'', JInt 1), (''result'', JNull)]))),
       Wire 0 (Recv (Text (JObj [(''id'', JInt 1), (''result'', JNull)]))),
       Wire 0 (Recv (Text (JObj [(''id'', JInt 2), (''result'', JNull)])))]) 0
     = Failed InvalidStateError \<and>
   pending_requests (run connected
      [Execute JNull, Execute JNull,
       Wire 0 (Recv (Text (JObj [(''id'', JInt 1), (''result'', JNull)]))),
       Wire 0 (Recv (Text (JObj [(''id'', JInt 1), (''result'', JNull)]))),
       Wire 0 (Recv (Text (JObj [(''id'', JInt 2), (''result'', JNull)])))]) 2
     = Some Pending"
  by (simp add: eval_defs)

text \<open>
  Claim C4, as the code has it. A frame whose id is a number, a boolean, a string or
  null and equals no key of \<open>pending_requests\<close> is discarded: the client is unchanged
  (nothing is logged), and the frames that follow are processed as if it had not come.
  In a client whose table has no key above \<open>request_id\<close>, the outcome written to a
  call's future is never written again: it stays what it is through every run.
\<close>

theorem unknown_id_is_discarded:
  "(map_of kvs ''id'' = Some rid \<and>
      (int_key rid = Inr None \<or> (\<exists>i. int_key rid = Inr (Some i) \<and> pending_requests c i = None)) \<longrightarrow>
      listen_step c k (Recv (Text (JObj kvs))) = c \<and>
      (\<forall>ops. run c (Wire k (Recv (Text (JObj kvs))) # ops) = run c ops)) \<and>
   ((\<forall>k. pending_requests c k \<noteq> None \<longrightarrow> k \<le> request_id c) \<and>
      pending_requests c n = Some (Done r) \<longrightarrow>
      (\<forall>ops. pending_requests (run c ops) n = Some (Done r)))"
proof -
  have discard: "listen_step c k (Recv (Text (JObj kvs))) = c \<and>
      (\<forall>ops. run c (Wire k (Recv (Text (JObj kvs))) # ops) = run c ops)"
    if "map_of kvs ''id'' = Some rid \<and>
      (int_key rid = Inr None \<or> (\<exists>i. int_key rid = Inr (Some i) \<and> pending_requests c i = None))"
  proof -
    from that have "handle_response c (JObj kvs) = Inr c"
      by (auto simp add: handle_response_def)
    with that have "handle_message c (Text (JObj kvs)) = Inr c"
      by (simp add: handle_message_def)
    then have "listen_step c k (Recv (Text (JObj kvs))) = c"
      by (simp add: listen_step_def)
    then show ?thesis
      by (simp add: run_Cons)
  qed
  have once: "\<forall>ops. pending_requests (run c ops) n = Some (Done r)"
    if "(\<forall>k. pending_requests c k \<noteq> None \<longrightarrow> k \<le> request_id c) \<and>
      pending_requests c n = Some (Done r)"
    using that run_keeps_done by blast
  from discard once show ?thesis
    by blast
qed

theorem unknown_id_is_discarded_witness:
  "listen_step (run connected [Execute JNull]) 0
     (Recv (Text (JObj [(''id'', JInt 9), (''result'', JNull)])))
     = run connected [Execute JNull] \<and>
   listen_step (run connected [Execute JNull]) 0
     (Recv (Text (JObj [(''id'', JStr ''1''), (''result'', JNull)])))
     = run connected [Execute JNull] \<and>
   pending_requests
     (run (run connected
        [Execute JNull, Wire 0 (Recv (Text (JObj [(''id'', JInt 1), (''result'', JStr ''r'')])))])
        [Execute JNull, Wire 0 (Recv (Text (JObj [(''id'', JInt 7)])))]) 1
     = Some (Done (JObj [(''id'', JInt 1), (''result'', JStr ''r'')]))"
proof -
  let ?c = "run connected [Execute JNull]"
  let ?d = "run connected
        [Execute JNull, Wire 0 (Recv (Text (JObj [(''id'', JInt 1), (''result'', JStr ''r'')])))]"
  have a: "map_of [(''id'', JInt 9), (''result'', JNull)] ''id'' = Some (JInt 9) \<and>
      (int_key (JInt 9) = Inr None \<or>
       (\<exists>k. int_key (JInt 9) = Inr (Some k) \<and> pending_requests ?c k = None))"
    by (simp add: eval_defs)
  have b: "map_of [(''id'', JStr ''1''), (''result'', JNull)] ''id'' = Some (JStr ''1'') \<and>
      (int_key (JStr ''1'') = Inr None \<or>
       (\<exists>k. int_key (JStr ''1'') = Inr (Some k) \<and> pending_requests ?c k = None))"
    by simp
  have i: "(\<forall>k. pending_requests ?d k \<noteq> None \<longrightarrow> k \<le> request_id ?d) \<and>
      pending_requests ?d 1 = Some (Done (JObj [(''id'', JInt 1), (''result'', JStr ''r'')]))"
    by (simp add: eval_defs)
  from unknown_id_is_discarded [of "[(''id'', JInt 9), (''result'', JNull)]" "JInt 9" ?c] a
  have r1: "listen_step ?c 0 (Recv (Text (JObj [(''id'', JInt 9), (''result'', JNull)]))) = ?c"
    by blast
  from unknown_id_is_discarded [of "[(''id'', JStr ''1''), (''result'', JNull)]" "JStr ''1''" ?c] b
  have r2: "listen_step ?c 0 (Recv (Text (JObj [(''id'', JStr ''1''), (''result'', JNull)]))) = ?c"
    by blast
  from unknown_id_is_discarded [of _ _ ?d _ 1 "JObj [(''id'', JInt 1), (''result'', JStr ''r'')]"] i
  have r3: "pending_requests (run ?d [Execute JNull, Wire 0 (Recv (Text (JObj [(''id'', JInt 7)])))]) 1
     = Some (Done (JObj [(''id'', JInt 1), (''result'', JStr ''r'')]))"
    by blast
  from r1 r2 r3 show ?thesis
    by blast
qed

end
